theory Spec2Isabelle
  imports Main
begin

section \<open>Python primitives used by preprocess.py\<close>

text \<open>
  Python integers are unbounded, so character offsets, sizes and page numbers are
  \<^typ>\<open>int\<close>; positions produced by \<open>enumerate\<close> are \<^typ>\<open>nat\<close>. A Python \<open>str\<close> is a
  \<^typ>\<open>string\<close>, its \<open>len\<close> the list length. The only exception the modelled code can raise
  by itself is \<open>IndexError\<close>.
\<close>

datatype py_error = IndexError

text \<open>A slice bound \<open>i\<close> of a sequence of length \<open>n\<close>: negative bounds count from the end,
  and every bound is clipped into \<open>[0, n]\<close>.\<close>

definition py_bound :: "int \<Rightarrow> int \<Rightarrow> int" where
  "py_bound n i = (if i < 0 then max 0 (n + i) else min n i)"

text \<open>\<open>xs[i:j]\<close>\<close>

definition py_slice :: "'a list \<Rightarrow> int \<Rightarrow> int \<Rightarrow> 'a list" where
  "py_slice xs i j =
     (let n = int (length xs); s = py_bound n i; e = py_bound n j
      in take (nat (e - s)) (drop (nat s) xs))"

text \<open>\<open>xs[i]\<close> for an index \<open>i \<ge> 0\<close>, and \<open>xs[-1]\<close>.\<close>

definition py_nth :: "'a list \<Rightarrow> nat \<Rightarrow> py_error + 'a" where
  "py_nth xs i = (if i < length xs then Inr (xs ! i) else Inl IndexError)"

definition py_last :: "'a list \<Rightarrow> py_error + 'a" where
  "py_last xs = (case xs of [] \<Rightarrow> Inl IndexError | _ \<Rightarrow> Inr (last xs))"

text \<open>\<open>sep.join(xs)\<close>\<close>

fun join :: "string \<Rightarrow> string list \<Rightarrow> string" where
  "join sep [] = []"
| "join sep [x] = x"
| "join sep (x # y # ys) = x @ sep @ join sep (y # ys)"

text \<open>\<open>str(i)\<close> for an integer, as an f-string prints it.\<close>

definition digit_char :: "nat \<Rightarrow> char" where
  "digit_char d = ''0123456789'' ! d"

fun str_nat :: "nat \<Rightarrow> string" where
  "str_nat n = (if n < 10 then [digit_char n] else str_nat (n div 10) @ [digit_char (n mod 10)])"

definition py_str :: "int \<Rightarrow> string" where
  "py_str i = (if i < 0 then CHR ''-'' # str_nat (nat (- i)) else str_nat (nat i))"

text \<open>\<open>s.replace("_", " ")\<close>\<close>

definition replace_underscores :: "string \<Rightarrow> string" where
  "replace_underscores s = map (\<lambda>c. if c = CHR ''_'' then CHR '' '' else c) s"

text \<open>\<open>Path.stem\<close> of a file name: the name up to its last dot, unless that dot is the
  first or the last character or there is none.\<close>

fun rfind_dot :: "string \<Rightarrow> nat option" where
  "rfind_dot [] = None"
| "rfind_dot (c # cs) =
     (case rfind_dot cs of
        Some i \<Rightarrow> Some (Suc i)
      | None \<Rightarrow> (if c = CHR ''.'' then Some 0 else None))"

definition stem :: "string \<Rightarrow> string" where
  "stem name =
     (case rfind_dot name of
        None \<Rightarrow> name
      | Some i \<Rightarrow> (if 0 < i \<and> i < length name - 1 then take i name else name))"

section \<open>Settings\<close>

definition CHUNK_SIZE :: int where
  "CHUNK_SIZE = 1200"

definition CHUNK_OVERLAP :: int where
  "CHUNK_OVERLAP = 200"

definition MODEL_NAME :: string where
  "MODEL_NAME = ''sentence-transformers/all-MiniLM-L6-v2''"

section \<open>chunk\_text\<close>

text \<open>
  The \<open>while\<close> loop of \<open>chunk_text\<close>, with its variables \<open>start\<close> and \<open>chunks\<close> as
  arguments. The stride \<open>step\<close> is fixed before the loop; for a stride below 1 the loop would
  not end, so the loop is a partial function and \<open>None\<close> stands for not returning.
\<close>

partial_function (option) chunk_loop ::
  "string \<Rightarrow> int \<Rightarrow> int \<Rightarrow> int \<Rightarrow> string list \<Rightarrow> string list option" where
  "chunk_loop text chunk_size step start chunks =
     (let n = int (length text) in
      if start < n then
        (let end = min n (start + chunk_size)
         in chunk_loop text chunk_size step (start + step) (chunks @ [py_slice text start end]))
      else Some chunks)"

definition chunk_text :: "string \<Rightarrow> int \<Rightarrow> int \<Rightarrow> string list option" where
  "chunk_text text chunk_size overlap =
     chunk_loop text chunk_size (max 1 (chunk_size - overlap)) 0 []"

text \<open>
  The windows \<open>(start, end)\<close> that the loop visits from a given \<open>start\<close> on, for a text of
  length \<open>n\<close>: the values its two variables take in each iteration, in order.
\<close>

function chunk_spans :: "int \<Rightarrow> int \<Rightarrow> int \<Rightarrow> int \<Rightarrow> (int \<times> int) list" where
  "chunk_spans n chunk_size overlap start =
     (if start < n then
        (start, min n (start + chunk_size))
          # chunk_spans n chunk_size overlap (start + max 1 (chunk_size - overlap))
      else [])"
  by pat_completeness auto
termination
  by (relation "measure (\<lambda>(n, chunk_size, overlap, start). nat (n - start))") auto

declare chunk_spans.simps [simp del]

section \<open>read\_pdf\_text\<close>

text \<open>
  What \<open>PdfReader\<close> makes of a file: it cannot be parsed or stays encrypted
  (\<open>Unreadable\<close>), or it yields the text extracted from each page, in page order
  (\<open>Readable\<close>; a page whose extraction fails contributes the empty text). The function
  numbers the pages from 1 and returns the empty list for a file it skips.
\<close>

datatype pdf_file = Unreadable | Readable "string list"

fun enumerate_pages :: "nat \<Rightarrow> string list \<Rightarrow> (int \<times> string) list" where
  "enumerate_pages i [] = []"
| "enumerate_pages i (txt # txts) = (int i + 1, txt) # enumerate_pages (Suc i) txts"

fun read_pdf_text :: "pdf_file \<Rightarrow> (int \<times> string) list" where
  "read_pdf_text Unreadable = []"
| "read_pdf_text (Readable txts) = enumerate_pages 0 txts"

section \<open>The page map and the page lookup\<close>

text \<open>The loop over \<open>pages\<close> that fills \<open>full_text\<close> and \<open>page_map\<close>.\<close>

fun page_map_loop ::
  "(int \<times> string) list \<Rightarrow> string list \<Rightarrow> (int \<times> int) list
     \<Rightarrow> string list \<times> (int \<times> int) list" where
  "page_map_loop [] full_text page_map = (full_text, page_map)"
| "page_map_loop ((pno, ptxt) # pages) full_text page_map =
     (let full_text' = full_text @ [ptxt]
      in page_map_loop pages full_text'
           (page_map @ [(pno, int (length (join [] full_text')))]))"

definition separator :: string where
  "separator = [CHR 0x0A, CHR 0x0A]"

text \<open>
  \<open>np.cumsum(xs).tolist()\<close>: the running sums of \<open>xs\<close>. numpy holds a list of Python
  integers in its default integer type, a signed integer of 64 bits, and adds in that type:
  a sum outside \<open>[-2^63, 2^63)\<close> wraps around silently. (The elements here are lengths of
  strings, which fit the type. numpy before version 2 on Windows uses 32 bits instead; the
  model is of the 64-bit type.)
\<close>

definition wrap_int64 :: "int \<Rightarrow> int" where
  "wrap_int64 x = (x + 2 ^ 63) mod 2 ^ 64 - 2 ^ 63"

fun cumsum_from :: "int \<Rightarrow> int list \<Rightarrow> int list" where
  "cumsum_from acc [] = []"
| "cumsum_from acc (x # xs) =
     (let acc' = wrap_int64 (acc + x) in acc' # cumsum_from acc' xs)"

definition cumsum :: "int list \<Rightarrow> int list" where
  "cumsum xs = cumsum_from 0 xs"

text \<open>The \<open>for\<close> loop of \<open>find_page\<close>: the page number of the first entry that \<open>pos\<close>
  does not exceed, if there is one.\<close>

fun find_page_scan :: "(int \<times> int) list \<Rightarrow> int \<Rightarrow> int option" where
  "find_page_scan [] pos = None"
| "find_page_scan ((pno, upto') # page_map) pos =
     (if pos \<le> upto' then Some pno else find_page_scan page_map pos)"

definition find_page :: "(int \<times> int) list \<Rightarrow> int \<Rightarrow> py_error + int" where
  "find_page page_map pos =
     (case find_page_scan page_map pos of
        Some pno \<Rightarrow> Inr pno
      | None \<Rightarrow> (case py_last page_map of Inl e \<Rightarrow> Inl e | Inr entry \<Rightarrow> Inr (fst entry)))"

definition approx_pages ::
  "int list \<Rightarrow> (int \<times> int) list \<Rightarrow> nat \<Rightarrow> nat \<Rightarrow> py_error + (int \<times> int)" where
  "approx_pages cum_lens page_map start_idx end_idx =
     (case py_nth cum_lens start_idx of
        Inl e \<Rightarrow> Inl e
      | Inr start_char \<Rightarrow>
     (case (if end_idx + 1 < length cum_lens then py_nth cum_lens (end_idx + 1)
            else py_last cum_lens) of
        Inl e \<Rightarrow> Inl e
      | Inr end_char \<Rightarrow>
     (case find_page page_map start_char of
        Inl e \<Rightarrow> Inl e
      | Inr p_start \<Rightarrow>
     (case find_page page_map end_char of
        Inl e \<Rightarrow> Inl e
      | Inr p_end \<Rightarrow> Inr (p_start, p_end)))))"

section \<open>Records\<close>

text \<open>
  The dictionary \<open>rec\<close>, one field per key. The key \<open>embedding\<close> is absent (\<open>None\<close>) until
  the embedding phase stores a vector; the type \<open>'a\<close> of a vector's components is left open.
\<close>

record 'a chunk_rec =
  r_id :: string
  r_book :: string
  r_chunk_id :: nat
  r_text :: string
  r_pages :: "int list"
  r_source :: string
  r_embedding :: "'a list option"

text \<open>The loop \<open>for i, ch in enumerate(chunks)\<close>, appending to \<open>records\<close>.\<close>

fun records_loop ::
  "string \<Rightarrow> string \<Rightarrow> int list \<Rightarrow> (int \<times> int) list \<Rightarrow> nat \<Rightarrow> string list
     \<Rightarrow> 'a chunk_rec list \<Rightarrow> py_error + 'a chunk_rec list" where
  "records_loop book_name pdf_name cum_lens page_map i [] records = Inr records"
| "records_loop book_name pdf_name cum_lens page_map i (ch # chunks) records =
     (case approx_pages cum_lens page_map i i of
        Inl e \<Rightarrow> Inl e
      | Inr (p_start, p_end) \<Rightarrow>
          records_loop book_name pdf_name cum_lens page_map (Suc i) chunks
            (records @
             [\<lparr> r_id = book_name @ ''__chunk_'' @ py_str (int i),
                r_book = book_name,
                r_chunk_id = i,
                r_text = ch,
                r_pages = [p_start, p_end],
                r_source = pdf_name @ ''#pp.'' @ py_str p_start @ ''-'' @ py_str p_end,
                r_embedding = None \<rparr>]))"

text \<open>The body of the loop over the PDF files, for a file that has pages.\<close>

definition process_pdf ::
  "string \<Rightarrow> (int \<times> string) list \<Rightarrow> 'a chunk_rec list
     \<Rightarrow> (py_error + 'a chunk_rec list) option" where
  "process_pdf pdf_name pages records =
     (let book_name = replace_underscores (stem pdf_name);
          (full_text, page_map) = page_map_loop pages [] [];
          combined = join separator full_text
      in case chunk_text combined CHUNK_SIZE CHUNK_OVERLAP of
           None \<Rightarrow> None
         | Some chunks \<Rightarrow>
             (let cum_lens = cumsum (0 # map (\<lambda>c. int (length c)) chunks)
              in Some (records_loop book_name pdf_name cum_lens page_map 0 chunks records)))"

text \<open>The loop over the PDF files, given in sorted order with what the reader makes of
  each.\<close>

fun pdf_loop ::
  "(string \<times> pdf_file) list \<Rightarrow> 'a chunk_rec list
     \<Rightarrow> (py_error + 'a chunk_rec list) option" where
  "pdf_loop [] records = Some (Inr records)"
| "pdf_loop ((pdf_name, file) # pdfs) records =
     (let pages = read_pdf_text file in
      if pages = [] then pdf_loop pdfs records
      else (case process_pdf pdf_name pages records of
              None \<Rightarrow> None
            | Some (Inl e) \<Rightarrow> Some (Inl e)
            | Some (Inr records') \<Rightarrow> pdf_loop pdfs records'))"

section \<open>Embedding and output\<close>

record metadata =
  md_model :: string
  md_chunk_size :: int
  md_chunk_overlap :: int
  md_total_chunks :: nat
  md_embedding_dim :: nat

record 'a index =
  ix_records :: "'a chunk_rec list"
  ix_metadata :: metadata

text \<open>The loop \<open>for i, rec in enumerate(records)\<close> that stores \<open>embeddings[i]\<close> in the
  \<open>i\<close>-th record; an index past the end of \<open>embeddings\<close> raises.\<close>

fun attach_loop ::
  "'a list list \<Rightarrow> nat \<Rightarrow> 'a chunk_rec list \<Rightarrow> py_error + 'a chunk_rec list" where
  "attach_loop embeddings i [] = Inr []"
| "attach_loop embeddings i (rec # records) =
     (case py_nth embeddings i of
        Inl e \<Rightarrow> Inl e
      | Inr v \<Rightarrow>
          (case attach_loop embeddings (Suc i) records of
             Inl e \<Rightarrow> Inl e
           | Inr records' \<Rightarrow> Inr (rec\<lparr>r_embedding := Some v\<rparr> # records')))"

text \<open>
  The embedding phase and the write, with the embedder's \<open>encode\<close> as a parameter. The
  result is the index written to \<open>OUT_PATH\<close>, or \<open>None\<close> when nothing is written.
\<close>

definition embed_and_write ::
  "(string list \<Rightarrow> 'a list list) \<Rightarrow> 'a chunk_rec list \<Rightarrow> py_error + 'a index option" where
  "embed_and_write encode records =
     (let all_texts = map r_text records in
      if all_texts \<noteq> [] then
        (let embeddings = encode all_texts in
         case attach_loop embeddings 0 records of
           Inl e \<Rightarrow> Inl e
         | Inr records' \<Rightarrow>
             Inr (Some \<lparr> ix_records = records',
                         ix_metadata =
                           \<lparr> md_model = MODEL_NAME,
                              md_chunk_size = CHUNK_SIZE,
                              md_chunk_overlap = CHUNK_OVERLAP,
                              md_total_chunks = length records',
                              md_embedding_dim =
                                (case embeddings of [] \<Rightarrow> 0 | v # _ \<Rightarrow> length v) \<rparr> \<rparr>))
      else Inr None)"

definition main ::
  "(string list \<Rightarrow> 'a list list) \<Rightarrow> (string \<times> pdf_file) list
     \<Rightarrow> (py_error + 'a index option) option" where
  "main encode pdfs =
     (case pdf_loop pdfs [] of
        None \<Rightarrow> None
      | Some (Inl e) \<Rightarrow> Some (Inl e)
      | Some (Inr records) \<Rightarrow> Some (embed_and_write encode records))"

section \<open>Auxiliary notions for the statements\<close>

text \<open>The page that \<open>find_page\<close> returns on a non-empty page map.\<close>

definition page_of :: "(int \<times> int) list \<Rightarrow> int \<Rightarrow> int" where
  "page_of page_map pos =
     (case find_page_scan page_map pos of Some pno \<Rightarrow> pno | None \<Rightarrow> fst (last page_map))"

text \<open>The record that \<open>records_loop\<close> builds for chunk \<open>i\<close>.\<close>

definition chunk_record ::
  "string \<Rightarrow> string \<Rightarrow> int list \<Rightarrow> (int \<times> int) list \<Rightarrow> nat \<Rightarrow> string \<Rightarrow> 'a chunk_rec" where
  "chunk_record book_name pdf_name cum_lens page_map i ch =
     (let p_start = page_of page_map (cum_lens ! i);
          p_end = page_of page_map (cum_lens ! Suc i)
      in \<lparr> r_id = book_name @ ''__chunk_'' @ py_str (int i),
            r_book = book_name,
            r_chunk_id = i,
            r_text = ch,
            r_pages = [p_start, p_end],
            r_source = pdf_name @ ''#pp.'' @ py_str p_start @ ''-'' @ py_str p_end,
            r_embedding = None \<rparr>)"

text \<open>
  The values that the body of the loop over the PDF files computes from a file's pages:
  its \<open>page_map\<close>, its \<open>combined\<close> text, the windows and the \<open>chunks\<close> of that text under
  the settings, its \<open>cum_lens\<close> and the records it appends.
\<close>

definition doc_page_map :: "(int \<times> string) list \<Rightarrow> (int \<times> int) list" where
  "doc_page_map pages = snd (page_map_loop pages [] [])"

definition doc_combined :: "(int \<times> string) list \<Rightarrow> string" where
  "doc_combined pages = join separator (fst (page_map_loop pages [] []))"

definition doc_spans :: "(int \<times> string) list \<Rightarrow> (int \<times> int) list" where
  "doc_spans pages =
     chunk_spans (int (length (doc_combined pages))) CHUNK_SIZE CHUNK_OVERLAP 0"

definition doc_chunks :: "(int \<times> string) list \<Rightarrow> string list" where
  "doc_chunks pages = map (\<lambda>(s, e). py_slice (doc_combined pages) s e) (doc_spans pages)"

definition doc_cum_lens :: "(int \<times> string) list \<Rightarrow> int list" where
  "doc_cum_lens pages = cumsum (0 # map (\<lambda>c. int (length c)) (doc_chunks pages))"

definition doc_records :: "string \<Rightarrow> (int \<times> string) list \<Rightarrow> 'a chunk_rec list" where
  "doc_records pdf_name pages =
     map (\<lambda>(i, ch). chunk_record (replace_underscores (stem pdf_name)) pdf_name
                       (doc_cum_lens pages) (doc_page_map pages) i ch)
         (enumerate 0 (doc_chunks pages))"

text \<open>The windows of \<open>chunk_text\<close> on a text: those the loop visits from \<open>start = 0\<close>.\<close>

definition text_spans :: "string \<Rightarrow> int \<Rightarrow> int \<Rightarrow> (int \<times> int) list" where
  "text_spans text chunk_size overlap = chunk_spans (int (length text)) chunk_size overlap 0"

text \<open>A record of the shape the pipeline builds, for concrete runs of the embedding phase.\<close>

definition rec0 :: "int chunk_rec" where
  "rec0 = \<lparr> r_id = ''a__chunk_0'', r_book = ''a'', r_chunk_id = 0, r_text = ''x'',
            r_pages = [1, 1], r_source = ''a.pdf#pp.1-1'', r_embedding = None \<rparr>"

text \<open>Two page texts of 1000 and 500 characters, for concrete runs on a two-page file.\<close>

definition page_a :: string where
  "page_a = replicate 1000 CHR ''a''"

definition page_b :: string where
  "page_b = replicate 500 CHR ''b''"

section \<open>The loop and its windows\<close>

lemma chunk_loop_spans:
  "chunk_loop text chunk_size (max 1 (chunk_size - overlap)) start chunks =
     Some (chunks @ map (\<lambda>(s, e). py_slice text s e)
                      (chunk_spans (int (length text)) chunk_size overlap start))"
proof (induction "int (length text)" chunk_size overlap start arbitrary: chunks
       rule: chunk_spans.induct)
  case (1 chunk_size overlap start)
  show ?case
  proof (cases "start < int (length text)")
    case True
    from "1.hyps" [OF True]
    show ?thesis
      using True
      by (subst chunk_loop.simps, subst chunk_spans.simps) (simp add: Let_def)
  next
    case False
    then show ?thesis
      by (subst chunk_loop.simps, subst chunk_spans.simps) simp
  qed
qed

lemma chunk_text_spans:
  "chunk_text text chunk_size overlap =
     Some (map (\<lambda>(s, e). py_slice text s e)
             (chunk_spans (int (length text)) chunk_size overlap 0))"
  unfolding chunk_text_def using chunk_loop_spans [of "text" chunk_size overlap 0 "[]"] by simp

lemma chunk_spans_fst:
  "i < length (chunk_spans n chunk_size overlap start) \<Longrightarrow>
   fst (chunk_spans n chunk_size overlap start ! i) = start + int i * max 1 (chunk_size - overlap)"
proof (induction n chunk_size overlap start arbitrary: i rule: chunk_spans.induct)
  case (1 n chunk_size overlap start)
  show ?case
  proof (cases "start < n")
    case True
    note unfold = chunk_spans.simps [of n chunk_size overlap start]
    show ?thesis
    proof (cases i)
      case 0
      with True show ?thesis by (simp add: unfold)
    next
      case (Suc j)
      with "1.prems" True
      have "j < length (chunk_spans n chunk_size overlap (start + max 1 (chunk_size - overlap)))"
        by (simp add: unfold)
      from "1.IH" [OF True this] Suc True show ?thesis
        by (simp add: unfold algebra_simps)
    qed
  next
    case False
    with "1.prems" show ?thesis by (simp add: chunk_spans.simps)
  qed
qed

lemma chunk_spans_bounds:
  "(s, e) \<in> set (chunk_spans n chunk_size overlap start) \<Longrightarrow>
   start \<le> s \<and> s < n \<and> e = min n (s + chunk_size)"
proof (induction n chunk_size overlap start rule: chunk_spans.induct)
  case (1 n chunk_size overlap start)
  show ?case
  proof (cases "start < n")
    case True
    from "1.prems" True
    consider "s = start \<and> e = min n (start + chunk_size)"
      | "(s, e) \<in> set (chunk_spans n chunk_size overlap (start + max 1 (chunk_size - overlap)))"
      by (subst (asm) chunk_spans.simps) auto
    then show ?thesis
    proof cases
      case 1
      with True show ?thesis by simp
    next
      case 2
      from "1.IH" [OF True 2] show ?thesis by auto
    qed
  next
    case False
    with "1.prems" show ?thesis by (simp add: chunk_spans.simps)
  qed
qed

lemma chunk_spans_cover:
  "0 \<le> overlap \<Longrightarrow> overlap < chunk_size \<Longrightarrow>
   (\<Union>(s, e) \<in> set (chunk_spans n chunk_size overlap start). {s..<e}) = {start..<n}"
proof (induction n chunk_size overlap start rule: chunk_spans.induct)
  case (1 n chunk_size overlap start)
  show ?case
  proof (cases "start < n")
    case True
    have step: "max 1 (chunk_size - overlap) = chunk_size - overlap"
      using "1.prems" by simp
    have rest: "(\<Union>(s, e) \<in> set (chunk_spans n chunk_size overlap (start + (chunk_size - overlap))). {s..<e})
                 = {start + (chunk_size - overlap)..<n}"
      using "1.IH" [OF True "1.prems"] by (simp add: step)
    have "(\<Union>(s, e) \<in> set (chunk_spans n chunk_size overlap start). {s..<e})
            = {start..<min n (start + chunk_size)} \<union> {start + (chunk_size - overlap)..<n}"
      using True rest by (subst chunk_spans.simps) (simp add: step)
    also have "\<dots> = {start..<n}"
      using "1.prems" True by auto
    finally show ?thesis .
  next
    case False
    then show ?thesis by (simp add: chunk_spans.simps)
  qed
qed

lemma py_slice_window:
  "0 \<le> s \<Longrightarrow> s \<le> e \<Longrightarrow> e \<le> int (length xs) \<Longrightarrow>
   py_slice xs s e = take (nat (e - s)) (drop (nat s) xs)"
  by (simp add: py_slice_def py_bound_def Let_def)

lemma length_py_slice_window:
  "0 \<le> s \<Longrightarrow> s \<le> e \<Longrightarrow> e \<le> int (length xs) \<Longrightarrow>
   int (length (py_slice xs s e)) = e - s"
  by (simp add: py_slice_window)

lemma join_nil_concat: "join [] xs = concat xs"
  by (induction "[]::string" xs rule: join.induct) simp_all

lemma length_join_separator:
  "xs \<noteq> [] \<Longrightarrow> length (join separator xs) = length (concat xs) + 2 * (length xs - 1)"
  by (induction separator xs rule: join.induct) (simp_all add: separator_def)

lemma page_map_loop_fst:
  "fst (page_map_loop pages full_text page_map) = full_text @ map snd pages"
  by (induction pages full_text page_map rule: page_map_loop.induct) (simp_all add: Let_def)

lemma page_map_loop_pnos:
  "map fst (snd (page_map_loop pages full_text page_map)) = map fst page_map @ map fst pages"
  by (induction pages full_text page_map rule: page_map_loop.induct) (simp_all add: Let_def)

lemma page_map_loop_last:
  "pages \<noteq> [] \<Longrightarrow>
   snd (last (snd (page_map_loop pages full_text page_map)))
     = int (length (concat (full_text @ map snd pages)))"
proof (induction pages full_text page_map rule: page_map_loop.induct)
  case (1 full_text page_map)
  then show ?case by simp
next
  case (2 pno ptxt pages full_text page_map)
  show ?case
  proof (cases pages)
    case Nil
    then show ?thesis by (simp add: Let_def join_nil_concat)
  next
    case (Cons a list)
    with 2 show ?thesis by (simp add: Let_def)
  qed
qed

lemma wrap_int64_id: "0 \<le> x \<Longrightarrow> x < 2 ^ 63 \<Longrightarrow> wrap_int64 x = x"
  by (simp add: wrap_int64_def)

lemma length_cumsum_from: "length (cumsum_from acc xs) = length xs"
  by (induction xs arbitrary: acc) (simp_all add: Let_def)

lemma sum_list_take_le:
  "(\<forall>x \<in> set xs. (0::int) \<le> x) \<Longrightarrow> sum_list (take k xs) \<le> sum_list xs"
proof (induction xs arbitrary: k)
  case Nil
  then show ?case by simp
next
  case (Cons x xs)
  show ?case
  proof (cases k)
    case 0
    with Cons.prems show ?thesis by (simp add: sum_list_nonneg)
  next
    case (Suc m)
    with Cons.IH [of m] Cons.prems show ?thesis by simp
  qed
qed

lemma cumsum_from_nth:
  "0 \<le> acc \<Longrightarrow> (\<forall>x \<in> set xs. 0 \<le> x) \<Longrightarrow> acc + sum_list xs < 2 ^ 63 \<Longrightarrow>
   i < length xs \<Longrightarrow> cumsum_from acc xs ! i = acc + sum_list (take (Suc i) xs)"
proof (induction xs arbitrary: acc i)
  case Nil
  then show ?case by simp
next
  case (Cons x xs)
  from Cons.prems have x: "0 \<le> x" and rest: "\<forall>y \<in> set xs. 0 \<le> y" by simp_all
  from rest have "0 \<le> sum_list xs" by (simp add: sum_list_nonneg)
  with Cons.prems(1,3) x have fits: "0 \<le> acc + x" "acc + x < 2 ^ 63" by simp_all
  then have wrap: "wrap_int64 (acc + x) = acc + x" by (rule wrap_int64_id)
  show ?case
  proof (cases i)
    case 0
    then show ?thesis by (simp add: wrap Let_def)
  next
    case (Suc k)
    from Cons.prems(3) have "acc + x + sum_list xs < 2 ^ 63" by simp
    from Cons.IH [OF fits(1) rest this, of k] Cons.prems(4) Suc
    show ?thesis by (simp add: wrap Let_def)
  qed
qed

lemma cum_lens_length: "length (cumsum (0 # xs)) = Suc (length xs)"
  by (simp add: cumsum_def length_cumsum_from Let_def)

lemma cum_lens_nth:
  assumes "\<forall>x \<in> set xs. 0 \<le> x" and "sum_list xs < 2 ^ 63" and "i \<le> length xs"
  shows "cumsum (0 # xs) ! i = sum_list (take i xs)"
proof -
  have zero: "wrap_int64 0 = 0" by (simp add: wrap_int64_def)
  show ?thesis
  proof (cases i)
    case 0
    then show ?thesis by (simp add: cumsum_def zero Let_def)
  next
    case (Suc k)
    with assms(3) have "k < length xs" by simp
    from cumsum_from_nth [OF _ assms(1) _ this, of 0] assms(2) Suc
    show ?thesis by (simp add: cumsum_def zero Let_def)
  qed
qed

lemma cum_lens_Suc:
  assumes "\<forall>x \<in> set xs. 0 \<le> x" and "sum_list xs < 2 ^ 63" and "i < length xs"
  shows "cumsum (0 # xs) ! Suc i = cumsum (0 # xs) ! i + xs ! i"
  using assms cum_lens_nth [OF assms(1,2), of i] cum_lens_nth [OF assms(1,2), of "Suc i"]
  by (simp add: take_Suc_conv_app_nth)

lemma find_page_page_of:
  "page_map \<noteq> [] \<Longrightarrow> find_page page_map pos = Inr (page_of page_map pos)"
  by (simp add: find_page_def page_of_def py_last_def split: option.splits list.splits)

lemma approx_pages_page_of:
  "page_map \<noteq> [] \<Longrightarrow> Suc i < length cum_lens \<Longrightarrow>
   approx_pages cum_lens page_map i i
     = Inr (page_of page_map (cum_lens ! i), page_of page_map (cum_lens ! Suc i))"
  by (simp add: approx_pages_def py_nth_def find_page_page_of)

lemma records_loop_records:
  "page_map \<noteq> [] \<Longrightarrow> i + length chunks < length cum_lens \<Longrightarrow>
   records_loop book_name pdf_name cum_lens page_map i chunks records
     = Inr (records @ map (\<lambda>(j, ch). chunk_record book_name pdf_name cum_lens page_map j ch)
                        (enumerate i chunks))"
proof (induction chunks arbitrary: i records)
  case Nil
  then show ?case by simp
next
  case (Cons ch chunks)
  from Cons.prems have "Suc i < length cum_lens" by simp
  with Cons.prems(1) have ap: "approx_pages cum_lens page_map i i
     = Inr (page_of page_map (cum_lens ! i), page_of page_map (cum_lens ! Suc i))"
    by (rule approx_pages_page_of)
  from Cons.prems have "Suc i + length chunks < length cum_lens" by simp
  from Cons.IH [OF Cons.prems(1) this] show ?case
    by (simp add: ap chunk_record_def Let_def)
qed

lemma doc_page_map_nonempty: "pages \<noteq> [] \<Longrightarrow> doc_page_map pages \<noteq> []"
  using page_map_loop_pnos [of pages "[]" "[]"] by (auto simp: doc_page_map_def)

lemma process_pdf_records:
  "pages \<noteq> [] \<Longrightarrow>
   process_pdf pdf_name pages records = Some (Inr (records @ doc_records pdf_name pages))"
proof -
  assume ne: "pages \<noteq> []"
  have ct: "chunk_text (doc_combined pages) CHUNK_SIZE CHUNK_OVERLAP = Some (doc_chunks pages)"
    by (simp add: chunk_text_spans doc_chunks_def doc_spans_def)
  have len: "0 + length (doc_chunks pages) < length (doc_cum_lens pages)"
    by (simp add: doc_cum_lens_def cum_lens_length)
  have "process_pdf pdf_name pages records
          = Some (records_loop (replace_underscores (stem pdf_name)) pdf_name
                    (doc_cum_lens pages) (doc_page_map pages) 0 (doc_chunks pages) records)"
    using ct
    by (simp add: process_pdf_def Let_def split_beta doc_combined_def [symmetric]
                  doc_page_map_def [symmetric] doc_cum_lens_def [symmetric])
  also have "\<dots> = Some (Inr (records @ doc_records pdf_name pages))"
    using records_loop_records [OF doc_page_map_nonempty [OF ne] len]
    by (simp add: doc_records_def)
  finally show ?thesis .
qed

lemma chunk_text_text_spans:
  "chunk_text text chunk_size overlap =
     Some (map (\<lambda>(s, e). py_slice text s e) (text_spans text chunk_size overlap))"
  by (simp add: chunk_text_spans text_spans_def)

lemma chunk_spans_length:
  "length (chunk_spans n chunk_size overlap start)
     = nat ((n - start + max 1 (chunk_size - overlap) - 1) div max 1 (chunk_size - overlap))"
proof (induction n chunk_size overlap start rule: chunk_spans.induct)
  case (1 n chunk_size overlap start)
  define step where "step = max 1 (chunk_size - overlap)"
  have step: "1 \<le> step" by (simp add: step_def)
  show ?case
  proof (cases "start < n")
    case True
    have "length (chunk_spans n chunk_size overlap start)
            = Suc (nat ((n - (start + step) + step - 1) div step))"
      using "1.IH" [OF True] True by (subst chunk_spans.simps) (simp add: step_def)
    also have "n - (start + step) + step - 1 = n - start - 1" by simp
    also have "Suc (nat ((n - start - 1) div step)) = nat ((n - start - 1) div step + 1)"
      using True step by (simp add: pos_imp_zdiv_nonneg_iff Suc_nat_eq_nat_zadd1 add.commute)
    also have "(n - start - 1) div step + 1 = (n - start - 1 + step) div step"
      using step div_add_self2 [of step "n - start - 1"] by linarith
    also have "n - start - 1 + step = n - start + step - 1" by simp
    finally show ?thesis by (simp add: step_def)
  next
    case False
    then have "(n - start + step - 1) div step \<le> (step - 1) div step"
      using step by (intro zdiv_mono1) auto
    also have "(step - 1) div step = 0"
      using step by (simp add: div_pos_pos_trivial)
    finally have "(n - start + step - 1) div step \<le> 0" .
    with False show ?thesis by (simp add: chunk_spans.simps step_def)
  qed
qed

text \<open>
  C7. For every text and overlap (and every \<open>chunk_size\<close>, positive or not), the chunks
  of \<open>chunk_text\<close> are the slices of its windows, consecutive windows start exactly
  \<open>max 1 (chunk_size - overlap)\<close> apart, and window \<open>i\<close> starts at \<open>i\<close> times that step.
\<close>

theorem chunk_text_start_offsets:
  "chunk_text text chunk_size overlap =
     Some (map (\<lambda>(s, e). py_slice text s e) (text_spans text chunk_size overlap)) \<and>
   (\<forall>i. Suc i < length (text_spans text chunk_size overlap) \<longrightarrow>
      fst (text_spans text chunk_size overlap ! Suc i) - fst (text_spans text chunk_size overlap ! i)
        = max 1 (chunk_size - overlap)) \<and>
   (\<forall>i < length (text_spans text chunk_size overlap).
      fst (text_spans text chunk_size overlap ! i) = int i * max 1 (chunk_size - overlap))"
proof -
  have nth: "fst (text_spans text chunk_size overlap ! i) = int i * max 1 (chunk_size - overlap)"
    if "i < length (text_spans text chunk_size overlap)" for i
    using that chunk_spans_fst [of i "int (length text)" chunk_size overlap 0]
    by (simp add: text_spans_def)
  have "fst (text_spans text chunk_size overlap ! Suc i) - fst (text_spans text chunk_size overlap ! i)
          = max 1 (chunk_size - overlap)"
    if "Suc i < length (text_spans text chunk_size overlap)" for i
    using that nth [of i] nth [of "Suc i"] by (simp add: algebra_simps)
  with nth show ?thesis by (simp add: chunk_text_text_spans)
qed

theorem chunk_text_start_offsets_witness:
  "chunk_text ''abcdefg'' 3 1 = Some [''abc'', ''cde'', ''efg'', ''g''] \<and>
   Suc 1 < length (text_spans ''abcdefg'' 3 1) \<and>
   fst (text_spans ''abcdefg'' 3 1 ! Suc 1) - fst (text_spans ''abcdefg'' 3 1 ! 1) = 2 \<and>
   fst (text_spans ''abcdefg'' 3 1 ! 3) = 6"
proof -
  have spans: "text_spans ''abcdefg'' 3 1 = [(0, 3), (2, 5), (4, 7), (6, 7)]"
    by (simp add: text_spans_def chunk_spans.simps)
  show ?thesis
    using chunk_text_start_offsets [of "''abcdefg''" 3 1]
    by (simp add: spans py_slice_def py_bound_def)
qed

text \<open>
  C8. \<open>chunk_text\<close> returns for every text, every \<open>chunk_size\<close> and every overlap, also an
  overlap of \<open>chunk_size\<close> or more: the step is at least 1, the start offsets of its windows
  strictly increase, and the result is a list of
  \<open>(len(text) + step - 1) div step\<close> chunks.
\<close>

theorem chunk_text_terminates:
  "1 \<le> max 1 (chunk_size - overlap) \<and>
   (\<exists>chunks. chunk_text text chunk_size overlap = Some chunks \<and>
      int (length chunks) = (int (length text) + max 1 (chunk_size - overlap) - 1)
                               div max 1 (chunk_size - overlap)) \<and>
   (\<forall>i. Suc i < length (text_spans text chunk_size overlap) \<longrightarrow>
      fst (text_spans text chunk_size overlap ! i) < fst (text_spans text chunk_size overlap ! Suc i))"
proof -
  define step where "step = max 1 (chunk_size - overlap)"
  have step: "1 \<le> step" by (simp add: step_def)
  have "0 \<le> (int (length text) + step - 1) div step"
    using step by (simp add: pos_imp_zdiv_nonneg_iff)
  then have len: "int (length (text_spans text chunk_size overlap))
                    = (int (length text) + step - 1) div step"
    by (simp add: text_spans_def chunk_spans_length step_def)
  have incr: "fst (text_spans text chunk_size overlap ! i)
                < fst (text_spans text chunk_size overlap ! Suc i)"
    if "Suc i < length (text_spans text chunk_size overlap)" for i
    using that step
      chunk_spans_fst [of i "int (length text)" chunk_size overlap 0]
      chunk_spans_fst [of "Suc i" "int (length text)" chunk_size overlap 0]
    by (simp add: text_spans_def step_def algebra_simps)
  from len incr show ?thesis
    by (simp add: chunk_text_text_spans step_def)
qed

theorem chunk_text_terminates_witness:
  "chunk_text ''abcdefg'' 3 5 = Some [''abc'', ''bcd'', ''cde'', ''def'', ''efg'', ''fg'', ''g''] \<and>
   Suc 0 < length (text_spans ''abcdefg'' 3 5) \<and>
   fst (text_spans ''abcdefg'' 3 5 ! 0) < fst (text_spans ''abcdefg'' 3 5 ! Suc 0)"
proof -
  have spans: "text_spans ''abcdefg'' 3 5
                 = [(0, 3), (1, 4), (2, 5), (3, 6), (4, 7), (5, 7), (6, 7)]"
    by (simp add: text_spans_def chunk_spans.simps)
  have "chunk_text ''abcdefg'' 3 5
          = Some [''abc'', ''bcd'', ''cde'', ''def'', ''efg'', ''fg'', ''g'']"
    by (simp add: chunk_text_text_spans spans py_slice_def py_bound_def)
  then show ?thesis
    using chunk_text_terminates [of 3 5 "''abcdefg''"] by (simp add: spans)
qed

text \<open>
  C6. For a text of length \<open>L\<close>, \<open>chunk_size > 0\<close> and \<open>0 \<le> overlap < chunk_size\<close>,
  \<open>chunk_text\<close> returns the slices \<open>text[s:e]\<close> of its windows; every window lies inside
  \<open>[0, L]\<close>, the union of the windows is exactly \<open>[0, L)\<close>, every chunk is at most
  \<open>chunk_size\<close> long, and the empty text gives no chunk.
\<close>

theorem chunk_text_coverage:
  assumes "0 < chunk_size" and "0 \<le> overlap" and "overlap < chunk_size"
  shows "\<exists>chunks.
           chunk_text text chunk_size overlap = Some chunks \<and>
           chunks = map (\<lambda>(s, e). take (nat (e - s)) (drop (nat s) text))
                       (text_spans text chunk_size overlap) \<and>
           (\<forall>(s, e) \<in> set (text_spans text chunk_size overlap).
              0 \<le> s \<and> s \<le> e \<and> e \<le> int (length text)) \<and>
           (\<Union>(s, e) \<in> set (text_spans text chunk_size overlap). {s..<e})
              = {0..<int (length text)} \<and>
           (\<forall>c \<in> set chunks. int (length c) \<le> chunk_size) \<and>
           (text = [] \<longrightarrow> chunks = [])"
proof -
  let ?spans = "text_spans text chunk_size overlap"
  let ?n = "int (length text)"
  let ?sub = "\<lambda>(s, e). take (nat (e - s)) (drop (nat s) text)"
  have inside: "0 \<le> s \<and> s \<le> e \<and> e \<le> ?n \<and> e - s \<le> chunk_size"
    if "(s, e) \<in> set ?spans" for s e
  proof -
    from that have "0 \<le> s \<and> s < ?n \<and> e = min ?n (s + chunk_size)"
      unfolding text_spans_def by (rule chunk_spans_bounds)
    with assms(1) show ?thesis by linarith
  qed
  have slice: "py_slice text (fst w) (snd w) = ?sub w" if "w \<in> set ?spans" for w
  proof -
    obtain s e where w: "w = (s, e)" by (cases w)
    with that inside [of s e] show ?thesis by (simp add: py_slice_window)
  qed
  have slices: "map (\<lambda>(s, e). py_slice text s e) ?spans = map ?sub ?spans"
    by (rule map_cong [OF refl]) (use slice in \<open>simp add: case_prod_beta\<close>)
  have windows: "\<forall>(s, e) \<in> set ?spans. 0 \<le> s \<and> s \<le> e \<and> e \<le> ?n"
    using inside by blast
  have short: "\<forall>c \<in> set (map ?sub ?spans). int (length c) \<le> chunk_size"
  proof
    fix c
    assume "c \<in> set (map ?sub ?spans)"
    then obtain w where w: "w \<in> set ?spans" and c: "c = ?sub w"
      by (auto simp only: set_map)
    obtain s e where se: "w = (s, e)" by (cases w)
    from inside [of s e] w se have b: "s \<le> e" "e - s \<le> chunk_size" by simp_all
    from c se have "length c \<le> nat (e - s)" by simp
    then have "int (length c) \<le> int (nat (e - s))" by (simp only: of_nat_le_iff)
    with b show "int (length c) \<le> chunk_size" by simp
  qed
  have cover: "(\<Union>(s, e) \<in> set ?spans. {s..<e}) = {0..<?n}"
    unfolding text_spans_def using assms(2,3) by (rule chunk_spans_cover)
  have empty: "text = [] \<longrightarrow> map ?sub ?spans = []"
    by (simp add: text_spans_def chunk_spans.simps)
  have result: "chunk_text text chunk_size overlap = Some (map ?sub ?spans)"
    by (simp only: chunk_text_text_spans slices)
  from result windows cover short empty show ?thesis
    by (intro exI [of _ "map ?sub ?spans"] conjI refl)
qed

theorem chunk_text_coverage_witness:
  "chunk_text ''abcdefg'' 3 1 = Some [''abc'', ''cde'', ''efg'', ''g''] \<and>
   {0..<3} \<union> {2..<5} \<union> {4..<7} \<union> {6..<7} = {0..<7::int} \<and>
   chunk_text [] 3 1 = Some []"
proof -
  have spans: "text_spans ''abcdefg'' 3 1 = [(0, 3), (2, 5), (4, 7), (6, 7)]"
    by (simp add: text_spans_def chunk_spans.simps)
  have empty: "text_spans [] 3 1 = []"
    by (simp add: text_spans_def chunk_spans.simps)
  have h: "(0::int) < 3" "(0::int) \<le> 1" "(1::int) < 3" by simp_all
  show ?thesis
    using chunk_text_coverage [OF h, of "''abcdefg''"] chunk_text_coverage [OF h, of "[]"]
    by (simp add: spans empty Un_assoc)
qed

lemma find_page_scan_first:
  "i < length page_map \<Longrightarrow> pos \<le> snd (page_map ! i) \<Longrightarrow>
   (\<forall>j < i. snd (page_map ! j) < pos) \<Longrightarrow>
   find_page_scan page_map pos = Some (fst (page_map ! i))"
proof (induction page_map pos arbitrary: i rule: find_page_scan.induct)
  case (1 pos)
  then show ?case by simp
next
  case (2 pno upto' page_map pos)
  show ?case
  proof (cases i)
    case 0
    with "2.prems" show ?thesis by simp
  next
    case (Suc k)
    from "2.prems"(3) Suc have first: "\<not> pos \<le> upto'" by fastforce
    have "\<forall>j < k. snd (page_map ! j) < pos"
      using "2.prems"(3) Suc by fastforce
    with "2.IH" [OF first, of k] "2.prems"(1,2) Suc first show ?thesis by simp
  qed
qed

lemma find_page_scan_none:
  "(\<forall>entry \<in> set page_map. snd entry < pos) \<Longrightarrow> find_page_scan page_map pos = None"
  by (induction page_map pos rule: find_page_scan.induct) auto

text \<open>
  C9. On a non-empty page map, \<open>find_page\<close> returns the page number of the first entry, in
  page order, whose cumulative count is at least the position (every earlier entry being below
  it), and the last entry's page number when the position exceeds every cumulative count. For
  the cumulative counts 100, 300, 350 of pages 1, 2, 3: position 250 is on page 2, position
  350 on page 3 and position 0 on page 1.
\<close>

theorem find_page_first_match:
  "(\<forall>i < length page_map.
      pos \<le> snd (page_map ! i) \<and> (\<forall>j < i. snd (page_map ! j) < pos) \<longrightarrow>
      find_page page_map pos = Inr (fst (page_map ! i))) \<and>
   (page_map \<noteq> [] \<and> (\<forall>entry \<in> set page_map. snd entry < pos) \<longrightarrow>
      find_page page_map pos = Inr (fst (last page_map))) \<and>
   find_page [(1, 100), (2, 300), (3, 350)] 250 = Inr 2 \<and>
   find_page [(1, 100), (2, 300), (3, 350)] 350 = Inr 3 \<and>
   find_page [(1, 100), (2, 300), (3, 350)] 0 = Inr 1"
proof -
  have first: "find_page page_map pos = Inr (fst (page_map ! i))"
    if "i < length page_map" "pos \<le> snd (page_map ! i)" "\<forall>j < i. snd (page_map ! j) < pos"
    for i
    using find_page_scan_first [OF that] by (simp add: find_page_def)
  have beyond: "find_page page_map pos = Inr (fst (last page_map))"
    if "page_map \<noteq> []" "\<forall>entry \<in> set page_map. snd entry < pos"
    using find_page_scan_none [OF that(2)] that(1)
    by (simp add: find_page_def py_last_def split: list.splits)
  have examples:
    "find_page [(1, 100), (2, 300), (3, 350)] 250 = Inr 2"
    "find_page [(1, 100), (2, 300), (3, 350)] 350 = Inr 3"
    "find_page [(1, 100), (2, 300), (3, 350)] 0 = Inr 1"
    by (simp_all add: find_page_def)
  from first beyond examples show ?thesis by blast
qed

theorem find_page_first_match_witness:
  "find_page [(1, 100), (2, 100), (3, 350)] 100 = Inr 1 \<and>
   find_page [(1, 100), (2, 300), (3, 350)] 351 = Inr 3"
proof -
  let ?pm = "[(1, 100), (2, 100), (3, 350)] :: (int \<times> int) list"
  let ?pm' = "[(1, 100), (2, 300), (3, 350)] :: (int \<times> int) list"
  have tie: "0 < length ?pm \<and> 100 \<le> snd (?pm ! 0) \<and> (\<forall>j < 0. snd (?pm ! j) < 100)"
    by simp
  have beyond: "?pm' \<noteq> [] \<and> (\<forall>entry \<in> set ?pm'. snd entry < 351)"
    by simp
  from find_page_first_match [of ?pm 100] tie
  have "find_page ?pm 100 = Inr (fst (?pm ! 0))" by blast
  moreover from find_page_first_match [of ?pm' 351] beyond
  have "find_page ?pm' 351 = Inr (fst (last ?pm'))" by blast
  ultimately show ?thesis by simp
qed

lemma attach_loop_result:
  "i \<le> length embeddings \<Longrightarrow>
   attach_loop embeddings i records =
     (if length embeddings < i + length records
      then Inl IndexError
      else Inr (map (\<lambda>(rec, v). rec\<lparr>r_embedding := Some v\<rparr>)
                  (zip records (drop i embeddings))))"
proof (induction records arbitrary: i)
  case Nil
  then show ?case by simp
next
  case (Cons rec records)
  show ?case
  proof (cases "i < length embeddings")
    case True
    then have "drop i embeddings = embeddings ! i # drop (Suc i) embeddings"
      by (simp add: Cons_nth_drop_Suc)
    with True Cons.IH [of "Suc i"] show ?thesis
      by (simp add: py_nth_def)
  next
    case False
    then show ?thesis by (simp add: py_nth_def)
  qed
qed

text \<open>
  C5 (as the code has it). With at least one record: when the embedder returns fewer
  vectors than there are records, the run stops with an \<open>IndexError\<close> and writes nothing;
  when it returns as many or more, the run does not stop: the first \<open>len(records)\<close> vectors
  are stored in the records in order, the surplus is ignored and the index is written.
\<close>

theorem embedding_count_mismatch:
  assumes "records \<noteq> []"
  shows "(length (encode (map r_text records)) < length records \<longrightarrow>
            embed_and_write encode records = Inl IndexError) \<and>
         (length records \<le> length (encode (map r_text records)) \<longrightarrow>
            (\<exists>ix. embed_and_write encode records = Inr (Some ix) \<and>
                  ix_records ix =
                    map (\<lambda>(rec, v). rec\<lparr>r_embedding := Some v\<rparr>)
                        (zip records (encode (map r_text records)))))"
  using assms attach_loop_result [of 0 "encode (map r_text records)" records]
  by (simp add: embed_and_write_def Let_def)

theorem embedding_count_mismatch_witness:
  "embed_and_write (\<lambda>texts. []) [rec0] = Inl IndexError \<and>
   (\<exists>ix. embed_and_write (\<lambda>texts. [[7], [8]]) [rec0] = Inr (Some ix) \<and>
         ix_records ix = [rec0\<lparr>r_embedding := Some [7]\<rparr>])"
proof -
  have ne: "[rec0] \<noteq> []" by simp
  show ?thesis
    using embedding_count_mismatch [OF ne, of "\<lambda>texts. []"]
          embedding_count_mismatch [OF ne, of "\<lambda>texts. [[7], [8]]"]
    by simp
qed

theorem surplus_vectors_tolerated:
  "embed_and_write (\<lambda>texts. [[7], [8]]) [rec0]
     = Inr (Some \<lparr> ix_records = [rec0\<lparr>r_embedding := Some [7]\<rparr>],
                   ix_metadata = \<lparr> md_model = MODEL_NAME, md_chunk_size = CHUNK_SIZE,
                                    md_chunk_overlap = CHUNK_OVERLAP, md_total_chunks = 1,
                                    md_embedding_dim = 1 \<rparr> \<rparr>)"
  by (simp add: embed_and_write_def py_nth_def)

lemma r_text_chunk_record [simp]:
  "r_text (chunk_record book_name pdf_name cum_lens page_map i ch) = ch"
  by (simp add: chunk_record_def Let_def)

lemma doc_records_texts: "map r_text (doc_records pdf_name pages) = doc_chunks pages"
proof -
  have "map r_text (doc_records pdf_name pages :: 'a chunk_rec list)
          = map (\<lambda>x. snd x) (enumerate 0 (doc_chunks pages))"
    unfolding doc_records_def by (simp add: case_prod_beta comp_def)
  then show ?thesis by simp
qed

lemma length_doc_records: "length (doc_records pdf_name pages) = length (doc_chunks pages)"
  by (simp add: doc_records_def)

lemma doc_records_nth:
  "i < length (doc_chunks pages) \<Longrightarrow>
   doc_records pdf_name pages ! i
     = chunk_record (replace_underscores (stem pdf_name)) pdf_name
         (doc_cum_lens pages) (doc_page_map pages) i (doc_chunks pages ! i)"
  by (simp add: doc_records_def nth_enumerate_eq)

lemma chunk_spans_nonempty:
  "0 < chunk_size \<Longrightarrow> (s, e) \<in> set (chunk_spans n chunk_size overlap start) \<Longrightarrow>
   start \<le> s \<and> s < n \<and> s < e \<and> e \<le> n"
  using chunk_spans_bounds [of s e n chunk_size overlap start] by auto

lemma chunk_nonempty:
  assumes "0 < chunk_size" and "(s, e) \<in> set (text_spans text chunk_size overlap)"
  shows "py_slice text s e \<noteq> []"
proof -
  from chunk_spans_nonempty [OF assms(1), of s e "int (length text)" overlap 0] assms(2)
  have b: "0 \<le> s" "s < e" "e \<le> int (length text)"
    by (simp_all add: text_spans_def)
  then have "int (length (py_slice text s e)) = e - s"
    by (simp add: length_py_slice_window)
  with b show ?thesis by auto
qed

lemma doc_chunks_nonempty: "c \<in> set (doc_chunks pages) \<Longrightarrow> c \<noteq> []"
proof -
  assume "c \<in> set (doc_chunks pages)"
  then obtain s e where
    "(s, e) \<in> set (text_spans (doc_combined pages) CHUNK_SIZE CHUNK_OVERLAP)"
    "c = py_slice (doc_combined pages) s e"
    by (auto simp: doc_chunks_def doc_spans_def text_spans_def)
  then show ?thesis
    using chunk_nonempty [of CHUNK_SIZE s e "doc_combined pages" CHUNK_OVERLAP]
    by (simp add: CHUNK_SIZE_def)
qed

lemma pdf_loop_texts:
  "pdf_loop pdfs records = Some (Inr records') \<Longrightarrow>
   (\<forall>r \<in> set records. r_text r \<noteq> []) \<Longrightarrow> (\<forall>r \<in> set records'. r_text r \<noteq> [])"
proof (induction pdfs records rule: pdf_loop.induct)
  case (1 records)
  then show ?case by simp
next
  case (2 pdf_name pdf pdfs records)
  show ?case
  proof (cases "read_pdf_text pdf = []")
    case True
    with 2 show ?thesis by simp
  next
    case False
    let ?new = "records @ doc_records pdf_name (read_pdf_text pdf)"
    have step: "process_pdf pdf_name (read_pdf_text pdf) records = Some (Inr ?new)"
      using False by (rule process_pdf_records)
    have "\<forall>r \<in> set (doc_records pdf_name (read_pdf_text pdf) :: 'a chunk_rec list).
            r_text r \<noteq> []"
    proof
      fix r :: "'a chunk_rec"
      assume "r \<in> set (doc_records pdf_name (read_pdf_text pdf))"
      then have "r_text r \<in> set (map r_text (doc_records pdf_name (read_pdf_text pdf) :: 'a chunk_rec list))"
        by simp
      then show "r_text r \<noteq> []"
        by (simp only: doc_records_texts) (rule doc_chunks_nonempty)
    qed
    with "2.prems"(2) have inv: "\<forall>r \<in> set ?new. r_text r \<noteq> []" by auto
    from "2.prems"(1) False step have "pdf_loop pdfs ?new = Some (Inr records')"
      by simp
    from "2.IH"(2) [OF refl False step refl this inv] show ?thesis .
  qed
qed

lemma embed_and_write_texts:
  "embed_and_write encode records = Inr (Some ix) \<Longrightarrow>
   map r_text (ix_records ix) = map r_text records"
proof -
  assume a: "embed_and_write encode records = Inr (Some ix)"
  let ?embs = "encode (map r_text records)"
  from a have ne: "records \<noteq> []"
    by (auto simp: embed_and_write_def)
  from a ne have enough: "\<not> length ?embs < length records"
    using attach_loop_result [of 0 ?embs records]
    by (auto simp: embed_and_write_def Let_def split: if_splits)
  with a ne have "ix_records ix
      = map (\<lambda>(rec, v). rec\<lparr>r_embedding := Some v\<rparr>) (zip records ?embs)"
    using attach_loop_result [of 0 ?embs records]
    by (auto simp: embed_and_write_def Let_def)
  then have "map r_text (ix_records ix) = map r_text (map fst (zip records ?embs))"
    by (simp add: case_prod_beta)
  also have "map fst (zip records ?embs) = records"
    using enough by (simp add: map_fst_zip_take)
  finally show ?thesis .
qed

lemma tiny_records:
  "doc_records ''a.pdf'' [(1, ''x'')] = [rec0\<lparr>r_embedding := None\<rparr>]"
proof -
  let ?pages = "[(1, ''x'')] :: (int \<times> string) list"
  have combined: "doc_combined ?pages = ''x''"
    by (simp add: doc_combined_def Let_def)
  have page_map: "doc_page_map ?pages = [(1, 1)]"
    by (simp add: doc_page_map_def Let_def)
  have spans: "doc_spans ?pages = [(0, 1)]"
    by (simp add: doc_spans_def combined chunk_spans.simps CHUNK_SIZE_def CHUNK_OVERLAP_def)
  have chunks: "doc_chunks ?pages = [''x'']"
    by (simp add: doc_chunks_def spans combined py_slice_def py_bound_def)
  have cum_lens: "doc_cum_lens ?pages = [0, 1]"
    by (simp add: doc_cum_lens_def chunks cumsum_def wrap_int64_def Let_def)
  have name: "replace_underscores (stem ''a.pdf'') = ''a''"
    by (simp add: replace_underscores_def stem_def)
  show ?thesis
    unfolding doc_records_def chunks cum_lens page_map name
    by (simp add: enumerate_eq_zip chunk_record_def page_of_def py_str_def digit_char_def rec0_def)
qed

text \<open>
  C10. For \<open>chunk_size > 0\<close>, every window of \<open>chunk_text\<close> starts below \<open>len(text)\<close> and
  ends above its own start, and every chunk returned is a non-empty string; so every record
  of an index that the run writes has a non-empty \<open>text\<close>.
\<close>

theorem chunks_nonempty:
  "(0 < chunk_size \<longrightarrow>
      (\<forall>(s, e) \<in> set (text_spans text chunk_size overlap). s < int (length text) \<and> s < e) \<and>
      (\<exists>chunks. chunk_text text chunk_size overlap = Some chunks \<and>
                (\<forall>c \<in> set chunks. c \<noteq> []))) \<and>
   (\<forall>ix. main encode pdfs = Some (Inr (Some ix)) \<longrightarrow>
      (\<forall>r \<in> set (ix_records ix). r_text r \<noteq> []))"
proof -
  have windows: "s < int (length text) \<and> s < e"
    if "0 < chunk_size" "(s, e) \<in> set (text_spans text chunk_size overlap)" for s e
    using chunk_spans_nonempty [OF that(1), of s e "int (length text)" overlap 0] that(2)
    by (simp add: text_spans_def)
  have chunks: "\<forall>c \<in> set (map (\<lambda>(s, e). py_slice text s e) (text_spans text chunk_size overlap)).
                  c \<noteq> []"
    if "0 < chunk_size"
    using chunk_nonempty [OF that, of _ _ "text" overlap] by auto
  have index: "\<forall>r \<in> set (ix_records ix). r_text r \<noteq> []"
    if run: "main encode pdfs = Some (Inr (Some ix))" for ix
  proof -
    from run obtain records where
      loop: "pdf_loop pdfs [] = Some (Inr records)" and
      emb: "embed_and_write encode records = Inr (Some ix)"
      by (auto simp: main_def split: option.splits sum.splits)
    from pdf_loop_texts [OF loop] have "\<forall>r \<in> set records. r_text r \<noteq> []" by simp
    then have "\<forall>t \<in> set (map r_text records). t \<noteq> []" by simp
    with embed_and_write_texts [OF emb]
    have "\<forall>t \<in> set (map r_text (ix_records ix)). t \<noteq> []" by simp
    then show ?thesis by simp
  qed
  from windows chunks index show ?thesis
    by (auto simp: chunk_text_text_spans)
qed

theorem chunks_nonempty_witness:
  "chunk_text ''abcdefg'' 3 1 = Some [''abc'', ''cde'', ''efg'', ''g''] \<and>
   main (\<lambda>texts. map (\<lambda>t. [0::int]) texts) [(''a.pdf'', Readable [''x''])]
     = Some (Inr (Some \<lparr> ix_records = [rec0\<lparr>r_embedding := Some [0]\<rparr>],
                         ix_metadata = \<lparr> md_model = MODEL_NAME, md_chunk_size = CHUNK_SIZE,
                                          md_chunk_overlap = CHUNK_OVERLAP, md_total_chunks = 1,
                                          md_embedding_dim = 1 \<rparr> \<rparr>)) \<and>
   r_text (rec0\<lparr>r_embedding := Some [0]\<rparr>) \<noteq> []"
proof -
  have spans: "text_spans ''abcdefg'' 3 1 = [(0, 3), (2, 5), (4, 7), (6, 7)]"
    by (simp add: text_spans_def chunk_spans.simps)
  have chunks: "chunk_text ''abcdefg'' 3 1 = Some [''abc'', ''cde'', ''efg'', ''g'']"
    by (simp add: chunk_text_text_spans spans py_slice_def py_bound_def)
  have pages: "[(1::int, ''x'')] \<noteq> []" by simp
  have run: "main (\<lambda>texts. map (\<lambda>t. [0::int]) texts) [(''a.pdf'', Readable [''x''])]
     = Some (Inr (Some \<lparr> ix_records = [rec0\<lparr>r_embedding := Some [0]\<rparr>],
                         ix_metadata = \<lparr> md_model = MODEL_NAME, md_chunk_size = CHUNK_SIZE,
                                          md_chunk_overlap = CHUNK_OVERLAP, md_total_chunks = 1,
                                          md_embedding_dim = 1 \<rparr> \<rparr>))"
    using process_pdf_records [OF pages, of "''a.pdf''" "[] :: int chunk_rec list"]
    by (simp add: main_def tiny_records embed_and_write_def py_nth_def rec0_def)
  from chunks_nonempty [of 3 "''abcdefg''" 1 "\<lambda>texts. map (\<lambda>t. [0::int]) texts"
                          "[(''a.pdf'', Readable [''x''])]"] chunks run
  show ?thesis by simp
qed

lemma enumerate_pages_pnos:
  "map fst (enumerate_pages i txts) = map (\<lambda>k. int k + 1) [i..<i + length txts]"
proof (induction txts arbitrary: i)
  case Nil
  then show ?case by simp
next
  case (Cons t txts)
  have "[i..<i + length (t # txts)] = i # [Suc i..<Suc i + length txts]"
    using upt_rec [of i "i + length (t # txts)"] by simp
  with Cons.IH [of "Suc i"] show ?case by simp
qed

lemma sorted_read_pdf_text: "sorted (map fst (read_pdf_text pdf))"
proof (cases pdf)
  case Unreadable
  then show ?thesis by simp
next
  case (Readable txts)
  have "sorted_wrt (\<lambda>x y. int x + 1 \<le> int y + 1) [0..<0 + length txts]"
    using sorted_upt [of 0 "0 + length txts"] by (rule sorted_wrt_mono_rel [rotated]) simp
  then have "sorted (map (\<lambda>k. int k + 1) [0..<0 + length txts])"
    by (simp only: sorted_map)
  with Readable show ?thesis by (simp add: enumerate_pages_pnos)
qed

lemma find_page_scan_member:
  "find_page_scan page_map pos = Some pno \<Longrightarrow> pno \<in> fst ` set page_map"
  by (induction page_map pos rule: find_page_scan.induct) (auto split: if_splits)

lemma page_of_member: "page_map \<noteq> [] \<Longrightarrow> page_of page_map pos \<in> fst ` set page_map"
  by (auto simp: page_of_def dest: find_page_scan_member split: option.splits)

lemma page_of_mono:
  "sorted (map fst page_map) \<Longrightarrow> pos \<le> pos' \<Longrightarrow>
   page_of page_map pos \<le> page_of page_map pos'"
proof (induction page_map)
  case Nil
  then show ?case by (simp add: page_of_def)
next
  case (Cons entry page_map)
  obtain pno upto' where entry: "entry = (pno, upto')" by (cases entry)
  show ?case
  proof (cases "pos \<le> upto'")
    case True
    have "page_of (entry # page_map) pos' \<in> fst ` set (entry # page_map)"
      by (rule page_of_member) simp
    with Cons.prems(1) have "pno \<le> page_of (entry # page_map) pos'"
      by (auto simp: entry)
    with True show ?thesis by (simp add: page_of_def entry)
  next
    case False
    with Cons.prems(2) have False': "\<not> pos' \<le> upto'" by simp
    show ?thesis
    proof (cases page_map)
      case Nil
      with False False' show ?thesis by (simp add: page_of_def entry)
    next
      case (Cons a list)
      then have "page_of (entry # page_map) p = page_of page_map p" if "\<not> p \<le> upto'" for p
        using that by (simp add: page_of_def entry split: option.splits)
      with False False' Cons.IH Cons.prems show ?thesis by simp
    qed
  qed
qed

lemma doc_page_map_pnos: "map fst (doc_page_map pages) = map fst pages"
  using page_map_loop_pnos [of pages "[]" "[]"] by (simp add: doc_page_map_def)

lemma sum_list_le_length:
  "(\<forall>x \<in> set xs. x \<le> (b::int)) \<Longrightarrow> sum_list xs \<le> int (length xs) * b"
  by (induction xs) (simp_all add: algebra_simps)

lemma doc_chunk_length: "c \<in> set (doc_chunks pages) \<Longrightarrow> int (length c) \<le> CHUNK_SIZE"
proof -
  let ?n = "int (length (doc_combined pages))"
  assume "c \<in> set (doc_chunks pages)"
  then obtain s e where
    span: "(s, e) \<in> set (chunk_spans ?n CHUNK_SIZE CHUNK_OVERLAP 0)" and
    c: "c = py_slice (doc_combined pages) s e"
    by (auto simp: doc_chunks_def doc_spans_def)
  from chunk_spans_bounds [OF span]
  have b: "0 \<le> s" "s < ?n" "e = min ?n (s + CHUNK_SIZE)" by simp_all
  then have "s \<le> e" "e \<le> ?n" by (simp_all add: CHUNK_SIZE_def)
  with b(1) c have "int (length c) = e - s" by (simp add: length_py_slice_window)
  with b(3) show ?thesis by simp
qed

lemma length_doc_chunks:
  "int (length (doc_chunks pages)) = (int (length (doc_combined pages)) + 999) div 1000"
proof -
  have "0 \<le> (int (length (doc_combined pages)) + 999) div 1000"
    by (simp add: pos_imp_zdiv_nonneg_iff)
  moreover have "length (doc_chunks pages)
      = nat ((int (length (doc_combined pages)) + 999) div 1000)"
    by (simp add: doc_chunks_def doc_spans_def chunk_spans_length CHUNK_SIZE_def
                  CHUNK_OVERLAP_def add.commute)
  ultimately show ?thesis by simp
qed

lemma doc_chunks_total:
  assumes "length (doc_combined pages) \<le> 2 ^ 62"
  shows "sum_list (map (\<lambda>c. int (length c)) (doc_chunks pages)) < 2 ^ 63"
proof -
  let ?n = "int (length (doc_combined pages))"
  from assms have "?n \<le> int (2 ^ 62)" by (simp only: of_nat_le_iff)
  then have n: "?n \<le> 2 ^ 62" by simp
  have "sum_list (map (\<lambda>c. int (length c)) (doc_chunks pages))
          \<le> int (length (map (\<lambda>c. int (length c)) (doc_chunks pages))) * CHUNK_SIZE"
    by (rule sum_list_le_length) (auto dest: doc_chunk_length)
  also have "\<dots> = (?n + 999) div 1000 * 1200"
    by (simp add: length_doc_chunks CHUNK_SIZE_def)
  also have "\<dots> \<le> (2 ^ 62 + 999) div 1000 * 1200"
    using n by (intro mult_right_mono zdiv_mono1) simp_all
  also have "\<dots> < 2 ^ 63" by simp
  finally show ?thesis .
qed

lemma doc_cum_lens_Suc:
  assumes "length (doc_combined pages) \<le> 2 ^ 62" and "i < length (doc_chunks pages)"
  shows "doc_cum_lens pages ! Suc i
           = doc_cum_lens pages ! i + int (length (doc_chunks pages ! i))"
proof -
  let ?lens = "map (\<lambda>c. int (length c)) (doc_chunks pages)"
  have nonneg: "\<forall>x \<in> set ?lens. 0 \<le> x" by simp
  from assms(2) have i: "i < length ?lens" by simp
  from cum_lens_Suc [OF nonneg doc_chunks_total [OF assms(1)] i] assms(2)
  show ?thesis by (simp add: doc_cum_lens_def)
qed

lemma ab_combined: "doc_combined [(1, p1), (2, p2)] = p1 @ separator @ p2"
  by (simp add: doc_combined_def Let_def)

lemma ab_page_map:
  "length p1 = 1000 \<Longrightarrow> length p2 = 500 \<Longrightarrow>
   doc_page_map [(1, p1), (2, p2)] = [(1, 1000), (2, 1500)]"
  by (simp add: doc_page_map_def Let_def)

lemma ab_length:
  "length p1 = 1000 \<Longrightarrow> length p2 = 500 \<Longrightarrow> length (doc_combined [(1, p1), (2, p2)]) = 1502"
  by (simp add: ab_combined separator_def)

lemma ab_spans:
  "length p1 = 1000 \<Longrightarrow> length p2 = 500 \<Longrightarrow>
   doc_spans [(1, p1), (2, p2)] = [(0, 1200), (1000, 1502)]"
  by (simp add: doc_spans_def ab_length chunk_spans.simps CHUNK_SIZE_def CHUNK_OVERLAP_def)

lemma ab_chunks:
  "length p1 = 1000 \<Longrightarrow> length p2 = 500 \<Longrightarrow>
   doc_chunks [(1, p1), (2, p2)]
     = [take 1200 (p1 @ separator @ p2), drop 1000 (p1 @ separator @ p2)]"
  using ab_length [of p1 p2]
  by (simp add: doc_chunks_def ab_spans py_slice_def py_bound_def ab_combined)

lemma ab_cum_lens:
  "length p1 = 1000 \<Longrightarrow> length p2 = 500 \<Longrightarrow>
   doc_cum_lens [(1, p1), (2, p2)] = [0, 1200, 1702]"
  by (simp add: doc_cum_lens_def ab_chunks cumsum_def separator_def wrap_int64_def Let_def)

lemma ab_book_name: "replace_underscores (stem ''Alpha Beta.pdf'') = ''Alpha Beta''"
  by (simp add: replace_underscores_def stem_def)

lemma ab_records:
  assumes "length p1 = 1000" and "length p2 = 500"
  shows "doc_records ''Alpha Beta.pdf'' [(1, p1), (2, p2)]
     = [\<lparr> r_id = ''Alpha Beta__chunk_0'', r_book = ''Alpha Beta'', r_chunk_id = 0,
           r_text = take 1200 (p1 @ separator @ p2), r_pages = [1, 2],
           r_source = ''Alpha Beta.pdf#pp.1-2'', r_embedding = None \<rparr>,
        \<lparr> r_id = ''Alpha Beta__chunk_1'', r_book = ''Alpha Beta'', r_chunk_id = 1,
           r_text = drop 1000 (p1 @ separator @ p2), r_pages = [2, 2],
           r_source = ''Alpha Beta.pdf#pp.2-2'', r_embedding = None \<rparr>]"
  unfolding doc_records_def ab_chunks [OF assms] ab_cum_lens [OF assms] ab_page_map [OF assms]
    ab_book_name
  by (simp add: enumerate_eq_zip chunk_record_def page_of_def py_str_def digit_char_def upt_rec)

lemma length_page_a: "length page_a = 1000"
  by (simp add: page_a_def)

lemma length_page_b: "length page_b = 500"
  by (simp add: page_b_def)

lemma read_two_pages: "read_pdf_text (Readable [p1, p2]) = [(1, p1), (2, p2)]"
  by simp

lemma doc_combined_length:
  assumes "pages \<noteq> []"
  shows "int (length (doc_combined pages))
           = snd (last (doc_page_map pages)) + 2 * (int (length pages) - 1)"
proof -
  have ft: "fst (page_map_loop pages [] []) = map snd pages"
    by (simp add: page_map_loop_fst)
  have "length (doc_combined pages) = length (concat (map snd pages)) + 2 * (length pages - 1)"
    using assms by (simp add: doc_combined_def ft length_join_separator)
  moreover have "snd (last (doc_page_map pages)) = int (length (concat (map snd pages)))"
    using page_map_loop_last [OF assms, of "[]" "[]"] by (simp add: doc_page_map_def)
  moreover have "1 \<le> length pages"
    using assms by (cases pages) simp_all
  ultimately show ?thesis by (simp add: of_nat_diff)
qed

lemma page_map_loop_sorted:
  "sorted (map snd page_map) \<Longrightarrow>
   (\<forall>entry \<in> set page_map. snd entry \<le> int (length (concat full_text))) \<Longrightarrow>
   sorted (map snd (snd (page_map_loop pages full_text page_map)))"
proof (induction pages full_text page_map rule: page_map_loop.induct)
  case (1 full_text page_map)
  then show ?case by simp
next
  case (2 pno ptxt pages full_text page_map)
  let ?pm = "page_map @ [(pno, int (length (join [] (full_text @ [ptxt]))))]"
  have "sorted (map snd ?pm)"
    using "2.prems" by (auto simp: sorted_append join_nil_concat)
  moreover have "\<forall>entry \<in> set ?pm. snd entry \<le> int (length (concat (full_text @ [ptxt])))"
    using "2.prems"(2) by (auto simp: join_nil_concat)
  ultimately show ?case
    using "2.IH" [OF refl] by (simp add: Let_def)
qed

lemma doc_page_map_sorted: "sorted (map snd (doc_page_map pages))"
  using page_map_loop_sorted [of "[]" "[]" pages] by (simp add: doc_page_map_def)

text \<open>
  C2, at a two-page file with the page texts \<open>a\<close> and \<open>b\<close>: the page map ends with the
  cumulative count 2, while the text handed to \<open>chunk_text\<close> is \<open>a\n\nb\<close>, of length 4.
\<close>

theorem page_map_misses_separators:
  "doc_page_map (read_pdf_text (Readable [''a'', ''b''])) = [(1, 1), (2, 2)] \<and>
   doc_combined (read_pdf_text (Readable [''a'', ''b''])) = ''a'' @ separator @ ''b'' \<and>
   length (doc_combined (read_pdf_text (Readable [''a'', ''b'']))) = 4 \<and>
   snd (last (doc_page_map (read_pdf_text (Readable [''a'', ''b''])))) = 2"
  by (simp add: doc_page_map_def doc_combined_def Let_def separator_def)

text \<open>
  C3, at a two-page file with page texts of 1000 and 500 characters: chunk 1 starts at
  offset 1000 of the combined text, but the position that \<open>approx_pages\<close> reads for it from
  \<open>cum_lens\<close> is 1200, the length of chunk 0; offset 1000 is on page 1, position 1200 on
  page 2, and the record of chunk 1 gets the pages \<open>[2, 2]\<close>.
\<close>

theorem start_char_not_start_offset:
  "fst (doc_spans (read_pdf_text (Readable [page_a, page_b])) ! 1) = 1 * max 1 (CHUNK_SIZE - CHUNK_OVERLAP) \<and>
   fst (doc_spans (read_pdf_text (Readable [page_a, page_b])) ! 1) = 1000 \<and>
   py_nth (doc_cum_lens (read_pdf_text (Readable [page_a, page_b]))) 1 = Inr 1200 \<and>
   find_page (doc_page_map (read_pdf_text (Readable [page_a, page_b]))) 1000 = Inr 1 \<and>
   find_page (doc_page_map (read_pdf_text (Readable [page_a, page_b]))) 1200 = Inr 2 \<and>
   approx_pages (doc_cum_lens (read_pdf_text (Readable [page_a, page_b])))
                (doc_page_map (read_pdf_text (Readable [page_a, page_b]))) 1 1 = Inr (2, 2)"
  unfolding read_two_pages
    ab_spans [OF length_page_a length_page_b]
    ab_cum_lens [OF length_page_a length_page_b]
    ab_page_map [OF length_page_a length_page_b]
  by (simp add: py_nth_def find_page_def approx_pages_def py_last_def
                CHUNK_SIZE_def CHUNK_OVERLAP_def)

text \<open>
  C4 (as the code has it). A two-page file \<open>Alpha Beta.pdf\<close> with page texts of 1000 and
  500 characters has a combined text of 1502 characters, the two page texts being joined by
  a separator of two characters. With \<open>CHUNK_SIZE = 1200\<close> and \<open>CHUNK_OVERLAP = 200\<close>
  (step 1000) it yields exactly two chunks, at \<open>[0, 1200)\<close> and \<open>[1000, 1502)\<close>, and the
  records have the ids \<open>Alpha Beta__chunk_0\<close> and \<open>Alpha Beta__chunk_1\<close>.
\<close>

theorem alpha_beta_scenario:
  assumes "length p1 = 1000" and "length p2 = 500"
  shows "max 1 (CHUNK_SIZE - CHUNK_OVERLAP) = 1000 \<and>
         doc_combined (read_pdf_text (Readable [p1, p2])) = p1 @ separator @ p2 \<and>
         length (doc_combined (read_pdf_text (Readable [p1, p2]))) = 1502 \<and>
         doc_spans (read_pdf_text (Readable [p1, p2])) = [(0, 1200), (1000, 1502)] \<and>
         chunk_text (doc_combined (read_pdf_text (Readable [p1, p2]))) CHUNK_SIZE CHUNK_OVERLAP
           = Some [take 1200 (p1 @ separator @ p2), drop 1000 (p1 @ separator @ p2)] \<and>
         pdf_loop [(''Alpha Beta.pdf'', Readable [p1, p2])] ([] :: 'a chunk_rec list)
           = Some (Inr
               [\<lparr> r_id = ''Alpha Beta__chunk_0'', r_book = ''Alpha Beta'', r_chunk_id = 0,
                   r_text = take 1200 (p1 @ separator @ p2), r_pages = [1, 2],
                   r_source = ''Alpha Beta.pdf#pp.1-2'', r_embedding = None \<rparr>,
                \<lparr> r_id = ''Alpha Beta__chunk_1'', r_book = ''Alpha Beta'', r_chunk_id = 1,
                   r_text = drop 1000 (p1 @ separator @ p2), r_pages = [2, 2],
                   r_source = ''Alpha Beta.pdf#pp.2-2'', r_embedding = None \<rparr>])"
proof -
  let ?pages = "[(1, p1), (2, p2)] :: (int \<times> string) list"
  have ne: "?pages \<noteq> []" by simp
  have chunks: "chunk_text (doc_combined ?pages) CHUNK_SIZE CHUNK_OVERLAP
                  = Some [take 1200 (p1 @ separator @ p2), drop 1000 (p1 @ separator @ p2)]"
    using ab_chunks [OF assms]
    by (simp add: chunk_text_spans doc_chunks_def doc_spans_def)
  have loop: "pdf_loop [(''Alpha Beta.pdf'', Readable [p1, p2])] ([] :: 'a chunk_rec list)
                = Some (Inr (doc_records ''Alpha Beta.pdf'' ?pages))"
    using process_pdf_records [OF ne, of "''Alpha Beta.pdf''" "[] :: 'a chunk_rec list"] by simp
  show ?thesis
    unfolding read_two_pages loop ab_records [OF assms] chunks
    using ab_length [OF assms] ab_spans [OF assms]
    by (simp add: ab_combined CHUNK_SIZE_def CHUNK_OVERLAP_def)
qed

theorem alpha_beta_scenario_witness:
  "length page_a = 1000 \<and> length page_b = 500 \<and>
   map_option (map_sum id (map r_id))
     (pdf_loop [(''Alpha Beta.pdf'', Readable [page_a, page_b])] ([] :: int chunk_rec list))
     = Some (Inr [''Alpha Beta__chunk_0'', ''Alpha Beta__chunk_1''])"
  using alpha_beta_scenario [where 'a = int, OF length_page_a length_page_b]
  by (simp add: length_page_a length_page_b)

text \<open>
  C4 as stated fails at the page texts \<open>page_a\<close> and \<open>page_b\<close>: the combined text has 1502
  characters, not 1500, and chunk 1 has 502 characters, not 500.
\<close>

theorem alpha_beta_text_is_1502:
  "length (doc_combined (read_pdf_text (Readable [page_a, page_b]))) = 1502 \<and>
   length (doc_combined (read_pdf_text (Readable [page_a, page_b]))) \<noteq> 1500 \<and>
   doc_spans (read_pdf_text (Readable [page_a, page_b])) \<noteq> [(0, 1200), (1000, 1500)] \<and>
   map_option (map length)
     (chunk_text (doc_combined (read_pdf_text (Readable [page_a, page_b])))
        CHUNK_SIZE CHUNK_OVERLAP) = Some [1200, 502]"
proof -
  note h = length_page_a length_page_b
  have "chunk_text (doc_combined [(1, page_a), (2, page_b)]) CHUNK_SIZE CHUNK_OVERLAP
          = Some (doc_chunks [(1, page_a), (2, page_b)])"
    by (simp add: chunk_text_spans doc_chunks_def doc_spans_def)
  then show ?thesis
    unfolding read_two_pages
    by (simp add: ab_length [OF h] ab_spans [OF h] ab_chunks [OF h] h separator_def)
qed

text \<open>
  C1 (as the code has it). For every file that has pages, with a combined text of at most
  \<open>2^62\<close> characters so that the 64-bit running sums do not wrap, and every chunk index
  \<open>i\<close>, the record's \<open>pages\<close> field is a pair \<open>[start_page, end_page]\<close> with
  \<open>start_page \<le> end_page\<close>. The two values need not be equal.
\<close>

theorem pages_pair:
  assumes "read_pdf_text pdf \<noteq> []"
    and "length (doc_combined (read_pdf_text pdf)) \<le> 2 ^ 62"
  shows "process_pdf pdf_name (read_pdf_text pdf) records
           = Some (Inr (records @ doc_records pdf_name (read_pdf_text pdf))) \<and>
         length (doc_records pdf_name (read_pdf_text pdf) :: 'a chunk_rec list)
           = length (doc_chunks (read_pdf_text pdf)) \<and>
         (\<forall>i < length (doc_chunks (read_pdf_text pdf)).
            (\<exists>start_page end_page.
               r_pages (doc_records pdf_name (read_pdf_text pdf) ! i :: 'a chunk_rec)
                 = [start_page, end_page] \<and>
               start_page \<le> end_page))"
proof -
  let ?pages = "read_pdf_text pdf"
  let ?pm = "doc_page_map ?pages"
  let ?cl = "doc_cum_lens ?pages"
  have sorted: "sorted (map fst ?pm)"
    by (simp add: doc_page_map_pnos sorted_read_pdf_text)
  have chunk: "\<exists>start_page end_page.
      r_pages (doc_records pdf_name ?pages ! i :: 'a chunk_rec) = [start_page, end_page] \<and>
      start_page \<le> end_page"
    if i: "i < length (doc_chunks ?pages)" for i
  proof -
    have "?cl ! Suc i = ?cl ! i + int (length (doc_chunks ?pages ! i))"
      using assms(2) i by (rule doc_cum_lens_Suc)
    then have later: "?cl ! i \<le> ?cl ! Suc i" by simp
    have pair: "r_pages (doc_records pdf_name ?pages ! i :: 'a chunk_rec)
            = [page_of ?pm (?cl ! i), page_of ?pm (?cl ! Suc i)]"
      using i by (simp add: doc_records_nth chunk_record_def Let_def)
    have "page_of ?pm (?cl ! i) \<le> page_of ?pm (?cl ! Suc i)"
      using sorted later by (rule page_of_mono)
    with pair show ?thesis by blast
  qed
  have run: "process_pdf pdf_name ?pages records
               = Some (Inr (records @ doc_records pdf_name ?pages))"
    using assms(1) by (rule process_pdf_records)
  have len: "length (doc_records pdf_name ?pages :: 'a chunk_rec list)
               = length (doc_chunks ?pages)"
    by (rule length_doc_records)
  from run len chunk show ?thesis by (intro conjI allI impI)
qed

theorem pages_pair_witness:
  "read_pdf_text (Readable [page_a, page_b]) \<noteq> [] \<and>
   length (doc_combined (read_pdf_text (Readable [page_a, page_b]))) \<le> 2 ^ 62 \<and>
   (0::nat) < length (doc_chunks (read_pdf_text (Readable [page_a, page_b]))) \<and>
   (\<exists>start_page end_page.
      r_pages (doc_records ''Alpha Beta.pdf'' (read_pdf_text (Readable [page_a, page_b])) ! 0
                 :: int chunk_rec) = [start_page, end_page] \<and>
      start_page \<le> end_page)"
proof -
  have ne: "read_pdf_text (Readable [page_a, page_b]) \<noteq> []" by simp
  have small: "length (doc_combined (read_pdf_text (Readable [page_a, page_b]))) \<le> 2 ^ 62"
    unfolding read_two_pages by (simp add: ab_length [OF length_page_a length_page_b])
  have some: "0 < length (doc_chunks (read_pdf_text (Readable [page_a, page_b])))"
    unfolding read_two_pages by (simp add: ab_chunks [OF length_page_a length_page_b])
  from pages_pair [where 'a = int, OF ne small, of "''Alpha Beta.pdf''" "[]"] some ne small
  show ?thesis by blast
qed

text \<open>
  C1 as stated fails at the two-page file with the page texts \<open>page_a\<close> and \<open>page_b\<close>: the
  record of chunk 0 has the pages \<open>[1, 2]\<close>.
\<close>

theorem end_page_differs:
  "map_option (map_sum id (map r_pages))
     (process_pdf ''Alpha Beta.pdf'' (read_pdf_text (Readable [page_a, page_b]))
        ([] :: int chunk_rec list))
     = Some (Inr [[1, 2], [2, 2]])"
proof -
  have ne: "[(1, page_a), (2, page_b)] \<noteq> ([] :: (int \<times> string) list)" by simp
  show ?thesis
    unfolding read_two_pages
    using process_pdf_records [OF ne, of "''Alpha Beta.pdf''" "[] :: int chunk_rec list"]
    by (simp add: ab_records [OF length_page_a length_page_b])
qed

end
